theory Spec2Isabelle
  imports Complex_Main "HOL-Library.AList" "HOL-Library.Sublist"
begin

section \<open>JSON-like trees\<close>

text \<open>
  The schema instance is whatever \<^verbatim>\<open>json.loads\<close> produced: a tree of Python values.
  A \<^verbatim>\<open>dict\<close> is an association list in insertion order (its keys are strings);
  numbers are kept by their mathematical value.
\<close>

datatype json =
    JNull
  | JBool bool
  | JInt int
  | JFloat rat
  | JStr string
  | JList "json list"
  | JDict "(string \<times> json) list"

datatype error = TypeError | IndexError

fun is_dict :: "json \<Rightarrow> bool" where
  "is_dict (JDict kvs) = True"
| "is_dict v = False"

subsection \<open>\<^verbatim>\<open>str.split\<close> on a single separator character\<close>

fun split_on :: "char \<Rightarrow> string \<Rightarrow> string list" where
  "split_on c [] = [[]]"
| "split_on c (x # xs) =
     (if x = c then [] # split_on c xs
      else (case split_on c xs of
              [] \<Rightarrow> [[x]]
            | w # ws \<Rightarrow> (x # w) # ws))"

subsection \<open>app.py: \<^verbatim>\<open>get_nested_value\<close> and \<^verbatim>\<open>set_nested_value\<close>\<close>

text \<open>\<^verbatim>\<open>dict.get(key)\<close>: the value, or \<^verbatim>\<open>None\<close> when the key is absent.\<close>

definition dict_get :: "(string \<times> json) list \<Rightarrow> string \<Rightarrow> json" where
  "dict_get kvs k = (case map_of kvs k of None \<Rightarrow> JNull | Some v \<Rightarrow> v)"

text \<open>The loop \<^verbatim>\<open>for key in keys\<close> of \<^verbatim>\<open>get_nested_value\<close>.\<close>

fun get_keys :: "json \<Rightarrow> string list \<Rightarrow> json" where
  "get_keys v [] = v"
| "get_keys v (k # ks) =
     (case v of
        JDict kvs \<Rightarrow> get_keys (dict_get kvs k) ks
      | _ \<Rightarrow> JNull)"

definition get_nested_value :: "json \<Rightarrow> string \<Rightarrow> json" where
  "get_nested_value data path = get_keys data (split_on CHR ''.'' path)"

text \<open>
  \<^verbatim>\<open>set_nested_value\<close> mutates the tree in place; the model returns the updated tree.
  Every operation it performs on \<^verbatim>\<open>current\<close> (\<^verbatim>\<open>key not in current\<close>,
  \<^verbatim>\<open>current[key] = {}\<close>, \<^verbatim>\<open>current = current[key]\<close>, \<^verbatim>\<open>current[keys[-1]] = value\<close>)
  ends in a \<^verbatim>\<open>TypeError\<close> when \<^verbatim>\<open>current\<close> is not a dict and the key is a
  string. \<^verbatim>\<open>AList.update\<close> is the dict store: it replaces the value of a present key in
  place and appends an absent key.
\<close>

fun set_keys :: "json \<Rightarrow> string list \<Rightarrow> json \<Rightarrow> error + json" where
  "set_keys cur [] v = Inl IndexError"
| "set_keys cur [k] v =
     (case cur of
        JDict kvs \<Rightarrow> Inr (JDict (AList.update k v kvs))
      | _ \<Rightarrow> Inl TypeError)"
| "set_keys cur (k # k' # ks) v =
     (case cur of
        JDict kvs \<Rightarrow>
          (case set_keys (case map_of kvs k of None \<Rightarrow> JDict [] | Some c \<Rightarrow> c) (k' # ks) v of
             Inl e \<Rightarrow> Inl e
           | Inr c' \<Rightarrow> Inr (JDict (AList.update k c' kvs)))
      | _ \<Rightarrow> Inl TypeError)"

definition set_nested_value :: "json \<Rightarrow> string \<Rightarrow> json \<Rightarrow> error + json" where
  "set_nested_value data path v = set_keys data (split_on CHR ''.'' path) v"

text \<open>
  The node reached by walking a key sequence strictly: \<open>None\<close> when a key is absent or a
  node on the way is not a dict. It only serves to state which nodes a path visits.
\<close>

fun node_at :: "json \<Rightarrow> string list \<Rightarrow> json option" where
  "node_at v [] = Some v"
| "node_at v (k # ks) =
     (case v of
        JDict kvs \<Rightarrow> (case map_of kvs k of None \<Rightarrow> None | Some c \<Rightarrow> node_at c ks)
      | _ \<Rightarrow> None)"

text \<open>
  Whether every node that \<^verbatim>\<open>set_nested_value\<close> steps through along a key sequence is a
  dict (an absent key is filled with a fresh dict, so it never blocks).
\<close>

fun path_clear :: "json \<Rightarrow> string list \<Rightarrow> bool" where
  "path_clear v [] = True"
| "path_clear v (k # ks) =
     (case v of
        JDict kvs \<Rightarrow> (case map_of kvs k of None \<Rightarrow> True | Some c \<Rightarrow> path_clear c ks)
      | _ \<Rightarrow> False)"

subsection \<open>app.py: \<^verbatim>\<open>validate_mandatory_fields\<close>\<close>

definition MANDATORY_FIELDS :: "(string \<times> string) list" where
  "MANDATORY_FIELDS =
    [(''complainant.name'', ''Complainant Name''),
     (''complainant.address'', ''Complainant Address''),
     (''complainant.phone'', ''Phone Number''),
     (''incident.location.address'', ''Incident Location''),
     (''incident.datetime.occurred_on'', ''Incident Date''),
     (''offense_details.type'', ''Offense Type''),
     (''offense_details.description'', ''Offense Description'')]"

text \<open>Python's truth value of an object, as \<^verbatim>\<open>not value\<close> and \<^verbatim>\<open>if value:\<close> test it.\<close>

fun truthy :: "json \<Rightarrow> bool" where
  "truthy JNull = False"
| "truthy (JBool b) = b"
| "truthy (JInt i) = (i \<noteq> 0)"
| "truthy (JFloat r) = (r \<noteq> 0)"
| "truthy (JStr s) = (s \<noteq> [])"
| "truthy (JList xs) = (xs \<noteq> [])"
| "truthy (JDict kvs) = (kvs \<noteq> [])"

text \<open>The test \<^verbatim>\<open>not value or value == "null" or value == ""\<close>.\<close>

definition field_missing :: "json \<Rightarrow> bool" where
  "field_missing v = (if truthy v then v = JStr ''null'' \<or> v = JStr [] else True)"

text \<open>
  The loop over \<^verbatim>\<open>MANDATORY_FIELDS.items()\<close>; \<^verbatim>\<open>missing\<close> is a dict, kept in insertion
  order.
\<close>

fun validate_loop ::
  "json \<Rightarrow> (string \<times> string) list \<Rightarrow> (string \<times> string) list \<Rightarrow> (string \<times> string) list" where
  "validate_loop data [] missing = missing"
| "validate_loop data ((field_path, field_label) # fs) missing =
     validate_loop data fs
       (if field_missing (get_nested_value data field_path)
        then AList.update field_path field_label missing
        else missing)"

definition validate_mandatory_fields :: "json \<Rightarrow> (string \<times> string) list" where
  "validate_mandatory_fields data = validate_loop data MANDATORY_FIELDS []"

text \<open>
  A mandatory value in the specification's words: present when it is neither absent nor
  null (both read back as \<^verbatim>\<open>None\<close>), nor the empty string, nor the string \<^verbatim>\<open>"null"\<close>.
\<close>

definition spec_present :: "json \<Rightarrow> bool" where
  "spec_present v = (v \<noteq> JNull \<and> v \<noteq> JStr [] \<and> v \<noteq> JStr ''null'')"

text \<open>What the code accepts: a value with a true truth value that is not \<^verbatim>\<open>"null"\<close>.\<close>

definition code_present :: "json \<Rightarrow> bool" where
  "code_present v =
     (v \<noteq> JNull \<and> v \<noteq> JBool False \<and> v \<noteq> JInt 0 \<and> v \<noteq> JFloat 0 \<and> v \<noteq> JStr []
      \<and> v \<noteq> JList [] \<and> v \<noteq> JDict [] \<and> v \<noteq> JStr ''null'')"

text \<open>Instances used as concrete inputs below.\<close>

definition filled_instance :: "json \<Rightarrow> json" where
  "filled_instance phone =
     JDict [(''complainant'',
               JDict [(''name'', JStr ''Rajesh Kumar''),
                      (''address'', JStr ''45 MG Road''),
                      (''phone'', phone)]),
            (''incident'',
               JDict [(''location'', JDict [(''address'', JStr ''City Market'')]),
                      (''datetime'', JDict [(''occurred_on'', JStr ''2025-01-15'')])]),
            (''offense_details'',
               JDict [(''type'', JStr ''theft''),
                      (''description'', JStr ''chain snatched'')])]"

subsection \<open>app.py: applying the corrections of the missing-fields form\<close>

text \<open>
  The submit handler of \<^verbatim>\<open>main\<close>:
  \<^verbatim>\<open>for field_path, value in user_inputs.items(): if value: set_nested_value(...)\<close>.
  An exception of \<^verbatim>\<open>set_nested_value\<close> is not caught and ends the loop.
\<close>

fun apply_corrections :: "json \<Rightarrow> (string \<times> json) list \<Rightarrow> error + json" where
  "apply_corrections data [] = Inr data"
| "apply_corrections data ((field_path, v) # cs) =
     (if truthy v
      then (case set_nested_value data field_path v of
              Inl e \<Rightarrow> Inl e
            | Inr data' \<Rightarrow> apply_corrections data' cs)
      else apply_corrections data cs)"

text \<open>Two key sequences neither of which is a prefix of the other.\<close>

definition unrelated :: "string list \<Rightarrow> string list \<Rightarrow> bool" where
  "unrelated ks qs = (\<not> prefix ks qs \<and> \<not> prefix qs ks)"

fun paths_independent :: "string list list \<Rightarrow> bool" where
  "paths_independent [] = True"
| "paths_independent (ks # rest) = (list_all (unrelated ks) rest \<and> paths_independent rest)"

definition keys_of :: "string \<Rightarrow> string list" where
  "keys_of path = split_on CHR ''.'' path"

definition effective :: "(string \<times> json) list \<Rightarrow> (string \<times> json) list" where
  "effective cs = filter (\<lambda>c. truthy (snd c)) cs"

text \<open>A partly filled instance and the inputs of the form, one of them left empty.\<close>

definition partial_instance :: json where
  "partial_instance =
     JDict [(''complainant'', JDict [(''name'', JNull), (''address'', JStr ''45 MG Road'')]),
            (''offense_details'', JDict [(''type'', JStr ''theft'')])]"

definition form_inputs :: "(string \<times> json) list" where
  "form_inputs =
     [(''complainant.name'', JStr ''Rajesh Kumar''),
      (''complainant.address'', JStr []),
      (''incident.location.address'', JStr ''City Market''),
      (''complainant.phone'', JStr ''9876543210'')]"

subsection \<open>utils.py: \<^verbatim>\<open>DataFormatter.remove_nulls\<close>\<close>

text \<open>
  The two comprehensions build new containers, so the argument is left as it was; the model is
  a function from trees to trees. The tests \<^verbatim>\<open>v is not None and v != [] and v != ""\<close> look
  at the value before it is pruned.
\<close>

fun remove_nulls :: "json \<Rightarrow> json" where
  "remove_nulls (JDict kvs) =
     JDict (map (\<lambda>(k, v). (k, remove_nulls v))
              (filter (\<lambda>(k, v). v \<noteq> JNull \<and> v \<noteq> JList [] \<and> v \<noteq> JStr []) kvs))"
| "remove_nulls (JList xs) = JList (map remove_nulls (filter (\<lambda>item. item \<noteq> JNull) xs))"
| "remove_nulls v = v"

text \<open>
  The specification's result: no null, no empty string and no empty container at any depth.
\<close>

fun spec_pruned :: "json \<Rightarrow> bool" where
  "spec_pruned JNull = False"
| "spec_pruned (JStr s) = (s \<noteq> [])"
| "spec_pruned (JList xs) = (xs \<noteq> [] \<and> list_all spec_pruned xs)"
| "spec_pruned (JDict kvs) = (kvs \<noteq> [] \<and> list_all (\<lambda>(k, v). spec_pruned v) kvs)"
| "spec_pruned v = True"

text \<open>At every depth, no dict member is null or an empty string and no list item is null.\<close>

fun nulls_removed :: "json \<Rightarrow> bool" where
  "nulls_removed (JDict kvs) =
     list_all (\<lambda>(k, v). v \<noteq> JNull \<and> v \<noteq> JStr [] \<and> nulls_removed v) kvs"
| "nulls_removed (JList xs) = list_all (\<lambda>x. x \<noteq> JNull \<and> nulls_removed x) xs"
| "nulls_removed v = True"

text \<open>At every depth, both filters of \<^verbatim>\<open>remove_nulls\<close> keep every entry.\<close>

fun nothing_to_remove :: "json \<Rightarrow> bool" where
  "nothing_to_remove (JDict kvs) =
     list_all (\<lambda>(k, v). v \<noteq> JNull \<and> v \<noteq> JList [] \<and> v \<noteq> JStr [] \<and> nothing_to_remove v) kvs"
| "nothing_to_remove (JList xs) = list_all (\<lambda>x. x \<noteq> JNull \<and> nothing_to_remove x) xs"
| "nothing_to_remove v = True"

text \<open>The dict members that the first filter drops, and the members of a dict.\<close>

definition dropped_member :: "json \<Rightarrow> bool" where
  "dropped_member v = (v = JNull \<or> v = JStr [] \<or> v = JList [])"

fun members :: "json \<Rightarrow> (string \<times> json) list" where
  "members (JDict kvs) = kvs"
| "members v = []"

definition pruning_sample :: json where
  "pruning_sample =
     JDict [(''a'', JDict [(''b'', JNull)]),
            (''c'', JList []),
            (''d'', JList [JNull]),
            (''e'', JStr []),
            (''f'', JList [JStr [], JList [], JNull]),
            (''g'', JDict [])]"

text \<open>A non-empty list all of whose items are null, and trees with no such list as a dict member.\<close>

fun null_only_list :: "json \<Rightarrow> bool" where
  "null_only_list (JList xs) = (xs \<noteq> [] \<and> list_all (\<lambda>x. x = JNull) xs)"
| "null_only_list v = False"

fun no_null_only_member :: "json \<Rightarrow> bool" where
  "no_null_only_member (JDict kvs) =
     list_all (\<lambda>(k, v). (if null_only_list v then False else no_null_only_member v)) kvs"
| "no_null_only_member (JList xs) = list_all no_null_only_member xs"
| "no_null_only_member v = True"

subsection \<open>utils.py: \<^verbatim>\<open>TextProcessor.identify_offense_keywords\<close>\<close>

text \<open>
  Text is a list of 8-bit characters. \<^verbatim>\<open>str.lower\<close> is modelled on the ASCII letters; other
  characters are left as they are.
\<close>

definition lower_char :: "char \<Rightarrow> char" where
  "lower_char c =
     (case map_of (zip ''ABCDEFGHIJKLMNOPQRSTUVWXYZ'' ''abcdefghijklmnopqrstuvwxyz'') c of
        None \<Rightarrow> c
      | Some l \<Rightarrow> l)"

definition lower :: "string \<Rightarrow> string" where
  "lower s = map lower_char s"

text \<open>The table \<^verbatim>\<open>offense_keywords\<close>, in the order the dict literal lists it.\<close>

definition offense_keywords :: "(string \<times> string list) list" where
  "offense_keywords =
    [(''theft'', [''steal'', ''stole'', ''stolen'', ''theft'', ''thief'', ''snatched'', ''snatch'',
                  ''took away'']),
     (''robbery'', [''rob'', ''robbed'', ''robbery'', ''loot'', ''looted'', ''held up'',
                    ''gun point'', ''knife point'']),
     (''assault'', [''beat'', ''beaten'', ''hit'', ''attack'', ''attacked'', ''assault'', ''hurt'',
                    ''injured'', ''wound'']),
     (''fraud'', [''fraud'', ''cheat'', ''cheated'', ''deceive'', ''scam'', ''fake'', ''forged'',
                  ''forgery'']),
     (''extortion'', [''extort'', ''extortion'', ''demand'', ''ransom'', ''threaten for money'']),
     (''harassment'', [''harass'', ''harassment'', ''trouble'', ''disturb'', ''stalking'',
                       ''eve teasing'']),
     (''intimidation'', [''threaten'', ''threatened'', ''intimidate'', ''intimidation'', ''scare'',
                         ''frightened''])]"

text \<open>
  The inner loop: \<^verbatim>\<open>keyword in text_lower\<close> is Python's substring test, and the first hit
  ends the loop (\<^verbatim>\<open>break\<close>) after the category is appended once.
\<close>

fun any_keyword :: "string list \<Rightarrow> string \<Rightarrow> bool" where
  "any_keyword [] text_lower = False"
| "any_keyword (keyword # keywords) text_lower =
     (if sublist keyword text_lower then True else any_keyword keywords text_lower)"

fun scan_offenses :: "(string \<times> string list) list \<Rightarrow> string \<Rightarrow> string list \<Rightarrow> string list" where
  "scan_offenses [] text_lower identified = identified"
| "scan_offenses ((offense_type, keywords) # rest) text_lower identified =
     scan_offenses rest text_lower
       (if any_keyword keywords text_lower then identified @ [offense_type] else identified)"

text \<open>The result is \<^verbatim>\<open>list(set(...))\<close>: its order is not determined, so it is a set.\<close>

definition identify_offense_keywords :: "string \<Rightarrow> string set" where
  "identify_offense_keywords text = set (scan_offenses offense_keywords (lower text) [])"

text \<open>
  Whole-word occurrence, to state what the function does not do: the keyword occurs with no
  letter directly before it and none directly after it.
\<close>

definition is_letter :: "char \<Rightarrow> bool" where
  "is_letter c = (c \<in> set ''abcdefghijklmnopqrstuvwxyzABCDEFGHIJKLMNOPQRSTUVWXYZ'')"

definition word_at :: "string \<Rightarrow> string \<Rightarrow> bool" where
  "word_at kw s =
     (prefix kw s \<and> (case drop (length kw) s of [] \<Rightarrow> True | c # cs \<Rightarrow> \<not> is_letter c))"

fun whole_word_from :: "string \<Rightarrow> bool \<Rightarrow> string \<Rightarrow> bool" where
  "whole_word_from kw after_letter [] = False"
| "whole_word_from kw after_letter (c # cs) =
     (if \<not> after_letter \<and> word_at kw (c # cs) then True
      else whole_word_from kw (is_letter c) cs)"

definition whole_word :: "string \<Rightarrow> string \<Rightarrow> bool" where
  "whole_word kw text = whole_word_from kw False text"

definition standalone_keywords :: "string \<Rightarrow> string list" where
  "standalone_keywords text =
     filter (\<lambda>kw. whole_word kw (lower text)) (concat (map snd offense_keywords))"

subsection \<open>utils.py: \<^verbatim>\<open>DataFormatter.format_datetime_display\<close>\<close>



definition digit_val :: "char \<Rightarrow> nat" where
  "digit_val c = (case map_of (zip ''0123456789'' [0, 1, 2, 3, 4, 5, 6, 7, 8, 9]) c of None \<Rightarrow> 0 | Some n \<Rightarrow> n)"


















section \<open>Path access: round trip and failure\<close>

lemma split_on_nonempty: "split_on c s \<noteq> []"
  by (induction s) (auto split: list.splits)

lemma map_of_update_same: "map_of (AList.update k v kvs) k = Some v"
  by (simp add: update_conv')

lemma dict_get_update_same: "dict_get (AList.update k v kvs) k = v"
  by (simp add: dict_get_def map_of_update_same)

lemma set_keys_get_keys:
  "set_keys t ks v = Inr t' \<Longrightarrow> get_keys t' ks = v"
proof (induction t ks v arbitrary: t' rule: set_keys.induct)
  case (1 cur v)
  then show ?case by simp
next
  case (2 cur k v)
  then show ?case
    by (cases cur) (auto simp: dict_get_update_same)
next
  case (3 cur k k' ks v)
  show ?case
  proof (cases cur)
    case (JDict kvs)
    let ?c = "case map_of kvs k of None \<Rightarrow> JDict [] | Some c \<Rightarrow> c"
    from "3.prems" JDict obtain c' where
      c': "set_keys ?c (k' # ks) v = Inr c'" and t': "t' = JDict (AList.update k c' kvs)"
      by (auto split: sum.splits)
    from "3.IH"[OF JDict c'] have "get_keys c' (k' # ks) = v" .
    with t' show ?thesis
      by (simp add: dict_get_update_same)
  qed (use "3.prems" in auto)
qed

lemma set_keys_empty_dict:
  "ks \<noteq> [] \<Longrightarrow> \<exists>t'. set_keys (JDict []) ks v = Inr t'"
proof (induction ks)
  case Nil
  then show ?case by simp
next
  case (Cons k ks)
  show ?case
  proof (cases ks)
    case Nil
    then show ?thesis by simp
  next
    case (Cons k' ks')
    with Cons.IH obtain c' where "set_keys (JDict []) (k' # ks') v = Inr c'"
      by auto
    with Cons show ?thesis by simp
  qed
qed

lemma set_keys_non_dict:
  "node_at t (take i ks) = Some x \<Longrightarrow> \<not> is_dict x \<Longrightarrow> i < length ks
   \<Longrightarrow> set_keys t ks v = Inl TypeError"
proof (induction t ks v arbitrary: i rule: set_keys.induct)
  case (1 cur v)
  then show ?case by simp
next
  case (2 cur k v)
  then have "i = 0" by simp
  with 2 show ?case by (cases cur) auto
next
  case (3 cur k k' ks v)
  show ?case
  proof (cases cur)
    case (JDict kvs)
    with "3.prems" obtain j where i: "i = Suc j"
      by (cases i) auto
    with "3.prems" JDict obtain c where
      c: "map_of kvs k = Some c" and n: "node_at c (take j (k' # ks)) = Some x"
      by (auto split: option.splits)
    from i "3.prems" have j: "j < length (k' # ks)" by simp
    from c n have "node_at (case map_of kvs k of None \<Rightarrow> JDict [] | Some c \<Rightarrow> c)
        (take j (k' # ks)) = Some x"
      by simp
    from "3.IH"[OF JDict this "3.prems"(2) j] JDict show ?thesis
      by simp
  qed auto
qed

lemma set_keys_path_clear:
  "ks \<noteq> [] \<Longrightarrow> path_clear t ks \<Longrightarrow> \<exists>t'. set_keys t ks v = Inr t'"
proof (induction t ks v rule: set_keys.induct)
  case (1 cur v)
  then show ?case by simp
next
  case (2 cur k v)
  then show ?case by (cases cur) auto
next
  case (3 cur k k' ks v)
  show ?case
  proof (cases cur)
    case (JDict kvs)
    show ?thesis
    proof (cases "map_of kvs k")
      case None
      from set_keys_empty_dict[of "k' # ks" v] obtain c' where
        "set_keys (JDict []) (k' # ks) v = Inr c'" by auto
      with JDict None show ?thesis by simp
    next
      case (Some c)
      with "3.prems" JDict have "path_clear c (k' # ks)" by simp
      with "3.IH"[OF JDict] Some obtain c' where "set_keys c (k' # ks) v = Inr c'"
        by auto
      with JDict Some show ?thesis by simp
    qed
  qed (use "3.prems" in auto)
qed

lemma path_clear_empty_dict: "path_clear (JDict []) ks"
  by (cases ks) auto

text \<open>
  C2 (amended). Whenever every node that the path steps through is a dict or absent,
  \<^verbatim>\<open>set_nested_value\<close> completes and \<^verbatim>\<open>get_nested_value\<close> on the result returns the
  value just stored; whenever it completes at all, the same holds; and on the empty tree it
  completes for every path.
\<close>

theorem set_then_get_roundtrip:
  "(path_clear t (split_on CHR ''.'' p) \<longrightarrow>
      (\<exists>t'. set_nested_value t p v = Inr t' \<and> get_nested_value t' p = v))
   \<and> (set_nested_value t p v = Inr t'' \<longrightarrow> get_nested_value t'' p = v)
   \<and> (\<exists>t'. set_nested_value (JDict []) p v = Inr t' \<and> get_nested_value t' p = v)"
proof -
  let ?ks = "split_on CHR ''.'' p"
  have ne: "?ks \<noteq> []" by (rule split_on_nonempty)
  have rt: "\<And>u u'. set_nested_value u p v = Inr u' \<Longrightarrow> get_nested_value u' p = v"
    unfolding set_nested_value_def get_nested_value_def by (rule set_keys_get_keys)
  have ok: "\<And>u. path_clear u ?ks \<Longrightarrow> \<exists>u'. set_nested_value u p v = Inr u'"
    unfolding set_nested_value_def using ne by (rule set_keys_path_clear)
  have a: "path_clear t ?ks \<longrightarrow>
      (\<exists>t'. set_nested_value t p v = Inr t' \<and> get_nested_value t' p = v)"
    using ok rt by blast
  have b: "set_nested_value t p v = Inr t'' \<longrightarrow> get_nested_value t'' p = v"
    using rt by blast
  have c: "\<exists>t'. set_nested_value (JDict []) p v = Inr t' \<and> get_nested_value t' p = v"
    using ok[OF path_clear_empty_dict] rt by blast
  from a b c show ?thesis by blast
qed

theorem set_then_get_roundtrip_witness:
  "path_clear (JDict [(''complainant'', JDict [(''name'', JNull)])])
     (split_on CHR ''.'' ''complainant.phone'')
   \<and> (\<exists>t'. set_nested_value (JDict [(''complainant'', JDict [(''name'', JNull)])])
            ''complainant.phone'' (JStr ''9876543210'') = Inr t'
          \<and> get_nested_value t' ''complainant.phone'' = JStr ''9876543210'')"
proof -
  have h: "path_clear (JDict [(''complainant'', JDict [(''name'', JNull)])])
     (split_on CHR ''.'' ''complainant.phone'')"
    by simp
  with set_then_get_roundtrip[of "JDict [(''complainant'', JDict [(''name'', JNull)])]"
      "''complainant.phone''" "JStr ''9876543210''"]
  show ?thesis by blast
qed

text \<open>
  The round trip as the specification states it, for every tree, fails: with an integer
  under \<^verbatim>\<open>a\<close>, setting \<^verbatim>\<open>a.b\<close> raises and there is no tree to read back from.
\<close>

theorem set_then_get_counterexample:
  "\<not> (\<exists>t'. set_nested_value (JDict [(''a'', JInt 1)]) ''a.b'' (JStr ''x'') = Inr t'
        \<and> get_nested_value t' ''a.b'' = JStr ''x'')"
  by (simp add: set_nested_value_def)

text \<open>
  C9. \<^verbatim>\<open>set_nested_value\<close> is not total: when some intermediate segment of the path
  (a proper, non-empty prefix of its keys) already holds a value that is not a dict, the call
  ends in Python's \<^verbatim>\<open>TypeError\<close>; it neither overwrites the intermediate nor reports an
  error of its own. Setting \<^verbatim>\<open>a.b\<close> in \<^verbatim>\<open>{"a": 1}\<close> is such a call.
\<close>

theorem set_nested_value_raises:
  "(0 < i \<and> i < length (split_on CHR ''.'' p)
      \<and> node_at t (take i (split_on CHR ''.'' p)) = Some x \<and> \<not> is_dict x
      \<longrightarrow> 2 \<le> length (split_on CHR ''.'' p) \<and> set_nested_value t p v = Inl TypeError)
   \<and> 2 \<le> length (split_on CHR ''.'' ''a.b'')
   \<and> set_nested_value (JDict [(''a'', JInt 1)]) ''a.b'' v = Inl TypeError"
proof -
  have "set_nested_value t p v = Inl TypeError"
    if "i < length (split_on CHR ''.'' p)"
      and "node_at t (take i (split_on CHR ''.'' p)) = Some x" and "\<not> is_dict x"
    unfolding set_nested_value_def using that(2,3,1) by (rule set_keys_non_dict)
  moreover have "set_nested_value (JDict [(''a'', JInt 1)]) ''a.b'' v = Inl TypeError"
    by (simp add: set_nested_value_def)
  moreover have "2 \<le> length (split_on CHR ''.'' ''a.b'')" by simp
  ultimately show ?thesis by auto
qed

theorem set_nested_value_raises_witness:
  "(0::nat) < 2 \<and> 2 < length (split_on CHR ''.'' ''incident.location.address'')
   \<and> node_at (JDict [(''incident'', JDict [(''location'', JStr ''MG Road'')])])
        (take 2 (split_on CHR ''.'' ''incident.location.address'')) = Some (JStr ''MG Road'')
   \<and> \<not> is_dict (JStr ''MG Road'')
   \<and> set_nested_value (JDict [(''incident'', JDict [(''location'', JStr ''MG Road'')])])
        ''incident.location.address'' (JStr ''45 MG Road'') = Inl TypeError"
proof -
  have h: "(0::nat) < 2 \<and> 2 < length (split_on CHR ''.'' ''incident.location.address'')
   \<and> node_at (JDict [(''incident'', JDict [(''location'', JStr ''MG Road'')])])
        (take 2 (split_on CHR ''.'' ''incident.location.address'')) = Some (JStr ''MG Road'')
   \<and> \<not> is_dict (JStr ''MG Road'')"
    by simp
  with set_nested_value_raises[of 2 "''incident.location.address''"
      "JDict [(''incident'', JDict [(''location'', JStr ''MG Road'')])]" "JStr ''MG Road''"
      "JStr ''45 MG Road''"]
  show ?thesis by blast
qed

section \<open>Mandatory fields\<close>

lemma field_missing_iff: "field_missing v \<longleftrightarrow> \<not> code_present v"
  by (cases v) (auto simp: field_missing_def code_present_def)

lemma validate_loop_filter:
  "distinct (map fst fs) \<Longrightarrow> fst ` set acc \<inter> fst ` set fs = {}
   \<Longrightarrow> validate_loop data fs acc =
       acc @ filter (\<lambda>f. field_missing (get_nested_value data (fst f))) fs"
proof (induction data fs acc rule: validate_loop.induct)
  case (1 data missing)
  then show ?case by simp
next
  case (2 data field_path field_label fs missing)
  have fresh: "field_path \<notin> fst ` set missing"
    using "2.prems"(2) by auto
  then have upd: "AList.update field_path field_label missing = missing @ [(field_path, field_label)]"
    by (induction missing) auto
  let ?acc = "if field_missing (get_nested_value data field_path)
        then AList.update field_path field_label missing else missing"
  have d: "distinct (map fst fs)" using "2.prems"(1) by simp
  have "fst ` set ?acc \<inter> fst ` set fs = {}"
    using "2.prems" upd by auto
  from "2.IH"[OF d this] show ?case
    by (simp add: upd)
qed

lemma distinct_mandatory: "distinct (map fst MANDATORY_FIELDS)"
  by (simp add: MANDATORY_FIELDS_def)

lemma validate_as_filter:
  "validate_mandatory_fields data =
     filter (\<lambda>f. field_missing (get_nested_value data (fst f))) MANDATORY_FIELDS"
  unfolding validate_mandatory_fields_def
  using validate_loop_filter[OF distinct_mandatory, of "[]" data] by simp

text \<open>
  C1 (amended). \<^verbatim>\<open>validate_mandatory_fields\<close> returns exactly the entries of
  \<^verbatim>\<open>MANDATORY_FIELDS\<close>, in their declared order, whose path reads back a value with a false
  truth value (absent, null, \<^verbatim>\<open>False\<close>, a zero number, an empty string, list or dict) or the
  string \<^verbatim>\<open>"null"\<close>; it returns the empty result exactly when all seven paths read back a
  value that is none of these.
\<close>

theorem validate_mandatory_fields_spec:
  "validate_mandatory_fields data =
     filter (\<lambda>f. \<not> code_present (get_nested_value data (fst f))) MANDATORY_FIELDS
   \<and> (validate_mandatory_fields data = [] \<longleftrightarrow>
        list_all (\<lambda>f. code_present (get_nested_value data (fst f))) MANDATORY_FIELDS)"
proof -
  have a: "validate_mandatory_fields data =
     filter (\<lambda>f. \<not> code_present (get_nested_value data (fst f))) MANDATORY_FIELDS"
    by (simp add: validate_as_filter field_missing_iff)
  have b: "validate_mandatory_fields data = [] \<longleftrightarrow>
        list_all (\<lambda>f. code_present (get_nested_value data (fst f))) MANDATORY_FIELDS"
    unfolding a by (simp add: filter_empty_conv list_all_iff)
  from a b show ?thesis by blast
qed

theorem validate_mandatory_fields_spec_witness:
  "validate_mandatory_fields (filled_instance JNull) = [(''complainant.phone'', ''Phone Number'')]
   \<and> validate_mandatory_fields (filled_instance (JStr ''9876543210'')) = []"
proof -
  have "validate_mandatory_fields (filled_instance JNull) =
     filter (\<lambda>f. \<not> code_present (get_nested_value (filled_instance JNull) (fst f)))
       MANDATORY_FIELDS"
    using validate_mandatory_fields_spec[of "filled_instance JNull"] by blast
  then have a: "validate_mandatory_fields (filled_instance JNull) =
      [(''complainant.phone'', ''Phone Number'')]"
    by (simp add: MANDATORY_FIELDS_def filled_instance_def get_nested_value_def dict_get_def
        code_present_def)
  have "list_all (\<lambda>f. code_present
      (get_nested_value (filled_instance (JStr ''9876543210'')) (fst f))) MANDATORY_FIELDS"
    by (simp add: MANDATORY_FIELDS_def filled_instance_def get_nested_value_def dict_get_def
        code_present_def)
  then have b: "validate_mandatory_fields (filled_instance (JStr ''9876543210'')) = []"
    using validate_mandatory_fields_spec[of "filled_instance (JStr ''9876543210'')"] by blast
  from a b show ?thesis by blast
qed

text \<open>
  The specification's criterion (not absent, not null, not the empty string, not
  \<^verbatim>\<open>"null"\<close>) is met by all seven fields of an instance whose phone number is the integer
  \<^verbatim>\<open>0\<close>, yet the phone field is reported missing.
\<close>

theorem validate_mandatory_fields_counterexample:
  "list_all (\<lambda>f. spec_present (get_nested_value (filled_instance (JInt 0)) (fst f)))
     MANDATORY_FIELDS
   \<and> validate_mandatory_fields (filled_instance (JInt 0)) =
       [(''complainant.phone'', ''Phone Number'')]"
  by (simp add: MANDATORY_FIELDS_def filled_instance_def get_nested_value_def dict_get_def
      spec_present_def validate_mandatory_fields_def field_missing_def)

section \<open>Applying corrections\<close>

lemma get_keys_JNull: "get_keys JNull ks = JNull"
  by (cases ks) auto

lemma dict_get_update_other: "q \<noteq> k \<Longrightarrow> dict_get (AList.update k v kvs) q = dict_get kvs q"
  by (simp add: dict_get_def update_conv')

lemma unrelated_sym: "unrelated ks qs \<Longrightarrow> unrelated qs ks"
  by (simp add: unrelated_def)

lemma unrelated_Cons:
  "unrelated (k # ks) qs \<Longrightarrow> \<exists>q qs'. qs = q # qs' \<and> (q = k \<longrightarrow> unrelated ks qs')"
  by (cases qs) (auto simp: unrelated_def)

lemma set_keys_frame:
  "set_keys t ks v = Inr t' \<Longrightarrow> unrelated ks qs \<Longrightarrow> get_keys t' qs = get_keys t qs"
proof (induction t ks v arbitrary: t' qs rule: set_keys.induct)
  case (1 cur v)
  then show ?case by simp
next
  case (2 cur k v)
  from "2.prems"(2) obtain q qs' where qs: "qs = q # qs'" and "q \<noteq> k"
    by (cases qs) (auto simp: unrelated_def)
  with "2.prems"(1) show ?case
    by (cases cur) (auto simp: dict_get_update_other)
next
  case (3 cur k k' ks v)
  from unrelated_Cons[OF "3.prems"(2)] obtain q qs' where
    qs: "qs = q # qs'" and rel: "q = k \<longrightarrow> unrelated (k' # ks) qs'"
    by blast
  show ?case
  proof (cases cur)
    case (JDict kvs)
    let ?c = "case map_of kvs k of None \<Rightarrow> JDict [] | Some c \<Rightarrow> c"
    from "3.prems"(1) JDict obtain c' where
      c': "set_keys ?c (k' # ks) v = Inr c'" and t': "t' = JDict (AList.update k c' kvs)"
      by (auto split: sum.splits)
    show ?thesis
    proof (cases "q = k")
      case False
      with qs t' JDict show ?thesis
        by (simp add: dict_get_update_other)
    next
      case True
      with rel have u: "unrelated (k' # ks) qs'" by simp
      then have ne: "qs' \<noteq> []" by (auto simp: unrelated_def)
      from "3.IH"[OF JDict c' u] have "get_keys c' qs' = get_keys ?c qs'" .
      also have "\<dots> = get_keys (dict_get kvs k) qs'"
        using ne by (cases qs') (auto simp: dict_get_def get_keys_JNull split: option.splits)
      finally show ?thesis
        using qs t' JDict True by (simp add: dict_get_update_same)
    qed
  qed (use "3.prems" in auto)
qed

lemma apply_frame:
  "apply_corrections inst cs = Inr inst'
   \<Longrightarrow> list_all (\<lambda>c. unrelated (keys_of (fst c)) qs) (effective cs)
   \<Longrightarrow> get_keys inst' qs = get_keys inst qs"
proof (induction inst cs rule: apply_corrections.induct)
  case (1 data)
  then show ?case by simp
next
  case (2 data field_path v cs)
  show ?case
  proof (cases "truthy v")
    case False
    with 2 show ?thesis by (simp add: effective_def)
  next
    case True
    with "2.prems"(1) obtain d where
      d: "set_nested_value data field_path v = Inr d" and r: "apply_corrections d cs = Inr inst'"
      by (auto split: sum.splits)
    from "2.prems"(2) True have u: "unrelated (keys_of field_path) qs"
      and l: "list_all (\<lambda>c. unrelated (keys_of (fst c)) qs) (effective cs)"
      by (simp_all add: effective_def)
    from "2.IH"(1)[OF True d r l] have "get_keys inst' qs = get_keys d qs" .
    also have "\<dots> = get_keys data qs"
      using d u unfolding set_nested_value_def keys_of_def by (rule set_keys_frame)
    finally show ?thesis .
  qed
qed

lemma apply_sets:
  "apply_corrections inst cs = Inr inst'
   \<Longrightarrow> paths_independent (map (\<lambda>c. keys_of (fst c)) (effective cs))
   \<Longrightarrow> list_all (\<lambda>c. get_nested_value inst' (fst c) = snd c) (effective cs)"
proof (induction inst cs rule: apply_corrections.induct)
  case (1 data)
  then show ?case by (simp add: effective_def)
next
  case (2 data field_path v cs)
  show ?case
  proof (cases "truthy v")
    case False
    with 2 show ?thesis by (simp add: effective_def)
  next
    case True
    with "2.prems"(1) obtain d where
      d: "set_nested_value data field_path v = Inr d" and r: "apply_corrections d cs = Inr inst'"
      by (auto split: sum.splits)
    from "2.prems"(2) True have
      u: "list_all (unrelated (keys_of field_path)) (map (\<lambda>c. keys_of (fst c)) (effective cs))"
      and i: "paths_independent (map (\<lambda>c. keys_of (fst c)) (effective cs))"
      by (simp_all add: effective_def)
    from u have "list_all (\<lambda>c. unrelated (keys_of (fst c)) (keys_of field_path)) (effective cs)"
      by (auto simp: list_all_iff intro: unrelated_sym)
    from apply_frame[OF r this] have "get_keys inst' (keys_of field_path) = get_keys d (keys_of field_path)" .
    also have "\<dots> = v"
      using d unfolding set_nested_value_def keys_of_def by (rule set_keys_get_keys)
    finally have h: "get_nested_value inst' field_path = v"
      by (simp add: get_nested_value_def keys_of_def)
    from "2.IH"(1)[OF True d r i] h True show ?thesis
      by (simp add: effective_def)
  qed
qed

lemma apply_effective: "apply_corrections inst (effective cs) = apply_corrections inst cs"
  by (induction inst cs rule: apply_corrections.induct)
     (auto simp: effective_def split: sum.splits)

lemma mandatory_paths_independent:
  "paths_independent (map (\<lambda>f. keys_of (fst f)) MANDATORY_FIELDS)"
  by (simp add: MANDATORY_FIELDS_def keys_of_def unrelated_def)

lemma set_keys_keeps_clear:
  "set_keys t ks v = Inr t' \<Longrightarrow> unrelated ks qs \<Longrightarrow> path_clear t qs \<Longrightarrow> path_clear t' qs"
proof (induction t ks v arbitrary: t' qs rule: set_keys.induct)
  case (1 cur v)
  then show ?case by simp
next
  case (2 cur k v)
  from "2.prems"(2) obtain q qs' where qs: "qs = q # qs'" and "q \<noteq> k"
    by (cases qs) (auto simp: unrelated_def)
  with "2.prems"(1,3) show ?case
    by (cases cur) (auto simp: update_conv')
next
  case (3 cur k k' ks v)
  from unrelated_Cons[OF "3.prems"(2)] obtain q qs' where
    qs: "qs = q # qs'" and rel: "q = k \<longrightarrow> unrelated (k' # ks) qs'"
    by blast
  show ?case
  proof (cases cur)
    case (JDict kvs)
    let ?c = "case map_of kvs k of None \<Rightarrow> JDict [] | Some c \<Rightarrow> c"
    from "3.prems"(1) JDict obtain c' where
      c': "set_keys ?c (k' # ks) v = Inr c'" and t': "t' = JDict (AList.update k c' kvs)"
      by (auto split: sum.splits)
    show ?thesis
    proof (cases "q = k")
      case False
      with qs t' JDict "3.prems"(3) show ?thesis
        by (simp add: update_conv')
    next
      case True
      with rel have u: "unrelated (k' # ks) qs'" by simp
      have "path_clear ?c qs'"
        using "3.prems"(3) qs True JDict
        by (auto simp: path_clear_empty_dict split: option.splits)
      from "3.IH"[OF JDict c' u this] have "path_clear c' qs'" .
      with qs t' True show ?thesis
        by (simp add: update_conv')
    qed
  qed (use "3.prems" in auto)
qed

lemma apply_completes:
  "paths_independent (map (\<lambda>c. keys_of (fst c)) (effective cs))
   \<Longrightarrow> list_all (\<lambda>c. path_clear inst (keys_of (fst c))) (effective cs)
   \<Longrightarrow> \<exists>inst'. apply_corrections inst cs = Inr inst'"
proof (induction inst cs rule: apply_corrections.induct)
  case (1 data)
  then show ?case by simp
next
  case (2 data field_path v cs)
  show ?case
  proof (cases "truthy v")
    case False
    with 2 show ?thesis by (simp add: effective_def)
  next
    case True
    from "2.prems" True have
      u: "list_all (unrelated (keys_of field_path)) (map (\<lambda>c. keys_of (fst c)) (effective cs))"
      and i: "paths_independent (map (\<lambda>c. keys_of (fst c)) (effective cs))"
      and c0: "path_clear data (keys_of field_path)"
      and cl: "list_all (\<lambda>c. path_clear data (keys_of (fst c))) (effective cs)"
      by (simp_all add: effective_def)
    have "keys_of field_path \<noteq> []"
      by (simp add: keys_of_def split_on_nonempty)
    from set_keys_path_clear[OF this c0, of v] obtain d where
      d: "set_nested_value data field_path v = Inr d"
      by (auto simp: set_nested_value_def keys_of_def)
    have "list_all (\<lambda>c. path_clear d (keys_of (fst c))) (effective cs)"
      unfolding list_all_iff
    proof
      fix c assume c: "c \<in> set (effective cs)"
      with u have un: "unrelated (keys_of field_path) (keys_of (fst c))"
        by (auto simp: list_all_iff)
      from c cl have pc: "path_clear data (keys_of (fst c))"
        by (auto simp: list_all_iff)
      from d have "set_keys data (keys_of field_path) v = Inr d"
        by (simp add: set_nested_value_def keys_of_def)
      from set_keys_keeps_clear[OF this un pc] show "path_clear d (keys_of (fst c))" .
    qed
    from "2.IH"(1)[OF True d i this] d True show ?thesis
      by simp
  qed
qed

text \<open>
  C7 (amended). Take a list of corrections in which no path with a non-empty value has a key
  sequence that is a prefix of another such path (the seven mandatory paths are of this kind).
  If every node that such a path steps through in the instance is a dict or absent, applying
  the corrections completes without an exception. Whenever it completes, every correction
  with a non-empty value reads back from the result; every path unrelated to all of those
  reads back what it held before, so a correction with an empty value clears nothing; and the
  result is the one obtained from the non-empty corrections alone.
\<close>

theorem apply_corrections_effect:
  assumes "paths_independent (map (\<lambda>c. keys_of (fst c)) (effective cs))"
  shows "(list_all (\<lambda>c. path_clear inst (keys_of (fst c))) (effective cs)
           \<longrightarrow> (\<exists>r. apply_corrections inst cs = Inr r))
    \<and> (apply_corrections inst cs = Inr inst' \<longrightarrow>
          list_all (\<lambda>c. get_nested_value inst' (fst c) = snd c) (effective cs)
        \<and> (list_all (\<lambda>c. unrelated (keys_of (fst c)) (keys_of q)) (effective cs)
             \<longrightarrow> get_nested_value inst' q = get_nested_value inst q)
        \<and> apply_corrections inst (effective cs) = Inr inst')"
proof -
  have t: "\<exists>r. apply_corrections inst cs = Inr r"
    if "list_all (\<lambda>c. path_clear inst (keys_of (fst c))) (effective cs)"
    using assms that by (rule apply_completes)
  have a: "list_all (\<lambda>c. get_nested_value inst' (fst c) = snd c) (effective cs)"
    if "apply_corrections inst cs = Inr inst'"
    using that assms by (rule apply_sets)
  have b: "get_nested_value inst' q = get_nested_value inst q"
    if "apply_corrections inst cs = Inr inst'"
      and "list_all (\<lambda>c. unrelated (keys_of (fst c)) (keys_of q)) (effective cs)"
    using apply_frame[OF that] by (simp add: get_nested_value_def keys_of_def)
  have c: "apply_corrections inst (effective cs) = Inr inst'"
    if "apply_corrections inst cs = Inr inst'"
    using that by (simp add: apply_effective)
  from t a b c show ?thesis by blast
qed

theorem apply_corrections_effect_witness:
  "paths_independent (map (\<lambda>c. keys_of (fst c)) (effective form_inputs))
   \<and> list_all (\<lambda>c. path_clear partial_instance (keys_of (fst c))) (effective form_inputs)
   \<and> (\<exists>r. apply_corrections partial_instance form_inputs = Inr r
        \<and> get_nested_value r ''complainant.name'' = JStr ''Rajesh Kumar''
        \<and> get_nested_value r ''incident.location.address'' = JStr ''City Market''
        \<and> get_nested_value r ''complainant.phone'' = JStr ''9876543210''
        \<and> get_nested_value r ''complainant.address''
            = get_nested_value partial_instance ''complainant.address'')"
proof -
  have e: "effective form_inputs =
      [(''complainant.name'', JStr ''Rajesh Kumar''),
       (''incident.location.address'', JStr ''City Market''),
       (''complainant.phone'', JStr ''9876543210'')]"
    by (simp add: effective_def form_inputs_def)
  have h1: "paths_independent (map (\<lambda>c. keys_of (fst c)) (effective form_inputs))"
    unfolding e by (simp add: keys_of_def unrelated_def)
  have h2: "list_all (\<lambda>c. path_clear partial_instance (keys_of (fst c))) (effective form_inputs)"
    unfolding e by (simp add: keys_of_def partial_instance_def)
  have h3: "list_all (\<lambda>c. unrelated (keys_of (fst c)) (keys_of ''complainant.address''))
      (effective form_inputs)"
    unfolding e by (simp add: keys_of_def unrelated_def)
  from apply_corrections_effect[OF h1, where inst = partial_instance] h2
  obtain r where r: "apply_corrections partial_instance form_inputs = Inr r"
    by blast
  from apply_corrections_effect[OF h1, where inst = partial_instance and inst' = r
      and q = "''complainant.address''"] r h3
  have a: "list_all (\<lambda>c. get_nested_value r (fst c) = snd c) (effective form_inputs)"
    and b: "get_nested_value r ''complainant.address''
        = get_nested_value partial_instance ''complainant.address''"
    by blast+
  from a have "get_nested_value r ''complainant.name'' = JStr ''Rajesh Kumar''
      \<and> get_nested_value r ''incident.location.address'' = JStr ''City Market''
      \<and> get_nested_value r ''complainant.phone'' = JStr ''9876543210''"
    unfolding e by simp
  with h1 h2 r b show ?thesis by blast
qed

text \<open>
  Applying a correction can fail: when the extraction left \<^verbatim>\<open>complainant\<close> null, the
  non-empty correction for \<^verbatim>\<open>complainant.name\<close> is not set, the call raises.
\<close>

theorem apply_corrections_counterexample:
  "apply_corrections (JDict [(''complainant'', JNull)])
     [(''complainant.name'', JStr ''Rajesh Kumar'')] = Inl TypeError
   \<and> \<not> (\<exists>inst'. apply_corrections (JDict [(''complainant'', JNull)])
            [(''complainant.name'', JStr ''Rajesh Kumar'')] = Inr inst'
          \<and> get_nested_value inst' ''complainant.name'' = JStr ''Rajesh Kumar'')"
  by (simp add: set_nested_value_def)

section \<open>Pruning\<close>

lemma remove_nulls_eq_JNull: "remove_nulls v = JNull \<longleftrightarrow> v = JNull"
  by (cases v) auto

lemma remove_nulls_eq_empty_str: "remove_nulls v = JStr [] \<longleftrightarrow> v = JStr []"
  by (cases v) auto

lemma remove_nulls_eq_empty_list:
  "remove_nulls v = JList [] \<longleftrightarrow> v = JList [] \<or> null_only_list v"
  by (cases v) (auto simp: filter_empty_conv list_all_iff)

lemma remove_nulls_fixed: "nothing_to_remove t \<Longrightarrow> remove_nulls t = t"
proof (induction t)
  case (JList xs)
  then have "filter (\<lambda>item. item \<noteq> JNull) xs = xs" "map remove_nulls xs = xs"
    by (auto simp: list_all_iff intro: map_idI)
  then show ?case by simp
next
  case (JDict kvs)
  have f: "filter (\<lambda>(k, v). v \<noteq> JNull \<and> v \<noteq> JList [] \<and> v \<noteq> JStr []) kvs = kvs"
    using JDict.prems by (fastforce simp: list_all_iff filter_id_conv)
  have "map (\<lambda>(k, v). (k, remove_nulls v)) kvs = kvs"
  proof (rule map_idI)
    fix p assume p: "p \<in> set kvs"
    obtain k v where kv: "p = (k, v)" by (cases p)
    with p JDict.prems have "nothing_to_remove v" by (auto simp: list_all_iff)
    with JDict.IH[OF p, of v] kv have "remove_nulls v = v" by simp
    with kv show "(case p of (k, v) \<Rightarrow> (k, remove_nulls v)) = p" by simp
  qed
  with f show ?case by simp
qed simp_all

lemma remove_nulls_removes: "nulls_removed (remove_nulls t)"
proof (induction t rule: remove_nulls.induct)
  case (1 kvs)
  then show ?case
    by (auto simp: list_all_iff remove_nulls_eq_JNull remove_nulls_eq_empty_str)
next
  case (2 xs)
  then show ?case by (auto simp: list_all_iff remove_nulls_eq_JNull)
qed simp_all

lemma null_only_not_removed: "nulls_removed v \<Longrightarrow> \<not> null_only_list v"
  by (cases v) (auto simp: list_all_iff neq_Nil_conv)

lemma second_pass_fixed: "nulls_removed t \<Longrightarrow> nothing_to_remove (remove_nulls t)"
proof (induction t rule: remove_nulls.induct)
  case (1 kvs)
  then show ?case
    by (auto simp: list_all_iff remove_nulls_eq_JNull remove_nulls_eq_empty_str
        remove_nulls_eq_empty_list null_only_not_removed)
next
  case (2 xs)
  then show ?case by (auto simp: list_all_iff remove_nulls_eq_JNull)
qed simp_all

lemma first_pass_fixed: "no_null_only_member t \<Longrightarrow> nothing_to_remove (remove_nulls t)"
proof (induction t rule: remove_nulls.induct)
  case (1 kvs)
  then show ?case
    by (auto simp: list_all_iff remove_nulls_eq_JNull remove_nulls_eq_empty_str
        remove_nulls_eq_empty_list split: if_splits)
next
  case (2 xs)
  then show ?case by (auto simp: list_all_iff remove_nulls_eq_JNull)
qed simp_all

lemma remove_nulls_dict:
  "remove_nulls (JDict kvs) =
     JDict (map (\<lambda>m. (fst m, remove_nulls (snd m))) (filter (\<lambda>m. \<not> dropped_member (snd m)) kvs))"
proof -
  have f: "(\<lambda>(k, v). v \<noteq> JNull \<and> v \<noteq> JList [] \<and> v \<noteq> JStr []) = (\<lambda>m. \<not> dropped_member (snd m))"
    by (auto simp: dropped_member_def fun_eq_iff)
  have g: "(\<lambda>(k, v). (k, remove_nulls v)) = (\<lambda>m. (fst m, remove_nulls (snd m)))"
    by (auto simp: fun_eq_iff)
  show ?thesis
    unfolding remove_nulls.simps f g by (rule refl)
qed

text \<open>
  C3 (amended). For every input tree, \<^verbatim>\<open>remove_nulls\<close> returns a new tree in which, at every
  nesting depth, no dict member is null or an empty string and no list item is null. Of a dict
  it drops exactly the members whose value is null, an empty string or an empty list before
  pruning, and keeps every other member in order with its pruned value, also when pruning
  empties that value; of a list it drops exactly the null items; anything else it returns as
  it is. A tree with nothing to drop is returned unchanged.
\<close>

theorem remove_nulls_result:
  "nulls_removed (remove_nulls t)
   \<and> (nothing_to_remove t \<longrightarrow> remove_nulls t = t)
   \<and> remove_nulls (JDict kvs) =
       JDict (map (\<lambda>m. (fst m, remove_nulls (snd m)))
                (filter (\<lambda>m. \<not> dropped_member (snd m)) kvs))
   \<and> remove_nulls (JList xs) = JList (map remove_nulls (filter (\<lambda>x. x \<noteq> JNull) xs))
   \<and> ((k, v) \<in> set kvs \<and> \<not> dropped_member v
        \<longrightarrow> (k, remove_nulls v) \<in> set (members (remove_nulls (JDict kvs))))
   \<and> (k \<in> fst ` set (members (remove_nulls (JDict kvs)))
        \<longrightarrow> (\<exists>w. (k, w) \<in> set kvs \<and> \<not> dropped_member w))
   \<and> (\<not> is_dict t \<and> (\<forall>ys. t \<noteq> JList ys) \<longrightarrow> remove_nulls t = t)"
proof -
  have d: "remove_nulls (JDict kvs) =
       JDict (map (\<lambda>m. (fst m, remove_nulls (snd m)))
                (filter (\<lambda>m. \<not> dropped_member (snd m)) kvs))"
    by (rule remove_nulls_dict)
  have l: "remove_nulls (JList xs) = JList (map remove_nulls (filter (\<lambda>x. x \<noteq> JNull) xs))"
    by simp
  have kept: "(k, remove_nulls v) \<in> set (members (remove_nulls (JDict kvs)))"
    if "(k, v) \<in> set kvs" "\<not> dropped_member v"
    unfolding d using that by force
  have only: "\<exists>w. (k, w) \<in> set kvs \<and> \<not> dropped_member w"
    if "k \<in> fst ` set (members (remove_nulls (JDict kvs)))"
    using that unfolding d by force
  have s: "remove_nulls t = t" if "\<not> is_dict t" "\<forall>ys. t \<noteq> JList ys"
    using that by (cases t) auto
  from remove_nulls_removes[of t] remove_nulls_fixed[of t] d l kept only s
  show ?thesis by blast
qed

theorem remove_nulls_result_witness:
  "remove_nulls pruning_sample =
     JDict [(''a'', JDict []), (''d'', JList []), (''f'', JList [JStr [], JList []]),
            (''g'', JDict [])]
   \<and> (''a'', JDict [(''b'', JNull)]) \<in> set (members pruning_sample)
   \<and> \<not> dropped_member (JDict [(''b'', JNull)])
   \<and> (''a'', JDict []) \<in> set (members (remove_nulls pruning_sample))
   \<and> nothing_to_remove (JDict [(''a'', JDict []), (''b'', JList [JStr [], JList []])])
   \<and> remove_nulls (JDict [(''a'', JDict []), (''b'', JList [JStr [], JList []])])
       = JDict [(''a'', JDict []), (''b'', JList [JStr [], JList []])]
   \<and> nulls_removed (remove_nulls pruning_sample)"
proof -
  let ?kvs = "members pruning_sample"
  have p: "pruning_sample = JDict ?kvs"
    by (simp add: pruning_sample_def)
  have h1: "(''a'', JDict [(''b'', JNull)]) \<in> set ?kvs"
    by (simp add: pruning_sample_def)
  have h2: "\<not> dropped_member (JDict [(''b'', JNull)])"
    by (simp add: dropped_member_def)
  have h3: "nothing_to_remove (JDict [(''a'', JDict []), (''b'', JList [JStr [], JList []])])"
    by simp
  note T = remove_nulls_result[where kvs = ?kvs and k = "''a''" and v = "JDict [(''b'', JNull)]"]
  from T[where t = pruning_sample] h1 h2
  have a: "(''a'', remove_nulls (JDict [(''b'', JNull)])) \<in> set (members (remove_nulls (JDict ?kvs)))"
    and n: "nulls_removed (remove_nulls pruning_sample)"
    and e: "remove_nulls (JDict ?kvs) =
       JDict (map (\<lambda>m. (fst m, remove_nulls (snd m)))
                (filter (\<lambda>m. \<not> dropped_member (snd m)) ?kvs))"
    by blast+
  from e have v: "remove_nulls pruning_sample =
     JDict [(''a'', JDict []), (''d'', JList []), (''f'', JList [JStr [], JList []]),
            (''g'', JDict [])]"
    unfolding p[symmetric] by (simp add: pruning_sample_def dropped_member_def)
  from a have a': "(''a'', JDict []) \<in> set (members (remove_nulls pruning_sample))"
    unfolding p[symmetric] by simp
  from T[where t = "JDict [(''a'', JDict []), (''b'', JList [JStr [], JList []])]"] h3
  have f: "remove_nulls (JDict [(''a'', JDict []), (''b'', JList [JStr [], JList []])])
       = JDict [(''a'', JDict []), (''b'', JList [JStr [], JList []])]"
    by blast
  from v h1 h2 a' h3 f n show ?thesis by blast
qed

text \<open>
  A dict whose only member is null is emptied by the recursive call and stays in the result:
  an empty container at depth one.
\<close>

theorem remove_nulls_counterexample:
  "remove_nulls (JDict [(''a'', JDict [(''b'', JNull)])]) = JDict [(''a'', JDict [])]
   \<and> \<not> spec_pruned (remove_nulls (JDict [(''a'', JDict [(''b'', JNull)])]))"
  by simp

text \<open>
  C6 (amended). \<^verbatim>\<open>remove_nulls\<close> settles after two applications: a third changes nothing.
  One application already settles every tree in which no dict member is a non-empty list of
  nulls only.
\<close>

theorem remove_nulls_settles:
  "remove_nulls (remove_nulls (remove_nulls t)) = remove_nulls (remove_nulls t)
   \<and> (no_null_only_member t \<longrightarrow> remove_nulls (remove_nulls t) = remove_nulls t)"
proof -
  have "nothing_to_remove (remove_nulls (remove_nulls t))"
    by (rule second_pass_fixed) (rule remove_nulls_removes)
  then have a: "remove_nulls (remove_nulls (remove_nulls t)) = remove_nulls (remove_nulls t)"
    by (rule remove_nulls_fixed)
  have b: "remove_nulls (remove_nulls t) = remove_nulls t" if "no_null_only_member t"
    using that by (intro remove_nulls_fixed first_pass_fixed)
  from a b show ?thesis by blast
qed

theorem remove_nulls_settles_witness:
  "no_null_only_member (JDict [(''a'', JList [JNull, JStr ''x'']), (''b'', JNull)])
   \<and> remove_nulls (remove_nulls (JDict [(''a'', JList [JNull, JStr ''x'']), (''b'', JNull)]))
       = remove_nulls (JDict [(''a'', JList [JNull, JStr ''x'']), (''b'', JNull)])"
proof -
  have h: "no_null_only_member (JDict [(''a'', JList [JNull, JStr ''x'']), (''b'', JNull)])"
    by simp
  with remove_nulls_settles[of "JDict [(''a'', JList [JNull, JStr ''x'']), (''b'', JNull)]"]
  show ?thesis by blast
qed

text \<open>
  The list \<^verbatim>\<open>[None]\<close> under a key is emptied by the first application and the key is
  dropped by the second.
\<close>

theorem remove_nulls_idempotent_counterexample:
  "remove_nulls (JDict [(''a'', JList [JNull])]) = JDict [(''a'', JList [])]
   \<and> remove_nulls (remove_nulls (JDict [(''a'', JList [JNull])])) = JDict []
   \<and> remove_nulls (remove_nulls (JDict [(''a'', JList [JNull])]))
       \<noteq> remove_nulls (JDict [(''a'', JList [JNull])])"
  by simp

section \<open>Offense keywords\<close>

lemma any_keyword_ex: "any_keyword kws t \<longleftrightarrow> list_ex (\<lambda>kw. sublist kw t) kws"
  by (induction kws) auto

lemma scan_offenses_eq:
  "scan_offenses table t acc = acc @ map fst (filter (\<lambda>e. any_keyword (snd e) t) table)"
  by (induction table t acc rule: scan_offenses.induct) auto

lemma lower_problem: "lower ''I have a problem'' = ''i have a problem''"
  by (simp add: lower_def lower_char_def)

lemma scan_problem: "scan_offenses offense_keywords ''i have a problem'' [] = [''robbery'']"
  by (simp add: offense_keywords_def sublist_Cons_right)

lemma standalone_problem: "standalone_keywords ''I have a problem'' = []"
  unfolding standalone_keywords_def lower_problem
  by (simp add: offense_keywords_def whole_word_def word_at_def is_letter_def)

text \<open>
  C10. A category is returned exactly when one of its keywords is a substring of the
  lowercased text; word boundaries play no part. The text \<^verbatim>\<open>I have a problem\<close> has no
  keyword of the table as a whole word, and is classified as robbery because
  \<^verbatim>\<open>problem\<close> contains \<^verbatim>\<open>rob\<close>.
\<close>

theorem identify_offense_keywords_substring:
  "(ty \<in> identify_offense_keywords text \<longleftrightarrow>
      list_ex (\<lambda>e. fst e = ty \<and> list_ex (\<lambda>kw. sublist kw (lower text)) (snd e))
        offense_keywords)
   \<and> standalone_keywords ''I have a problem'' = []
   \<and> identify_offense_keywords ''I have a problem'' = {''robbery''}"
proof -
  have a: "ty \<in> identify_offense_keywords text \<longleftrightarrow>
      list_ex (\<lambda>e. fst e = ty \<and> list_ex (\<lambda>kw. sublist kw (lower text)) (snd e))
        offense_keywords"
    by (auto simp: identify_offense_keywords_def scan_offenses_eq any_keyword_ex list_ex_iff)
  have b: "identify_offense_keywords ''I have a problem'' = {''robbery''}"
    by (simp add: identify_offense_keywords_def lower_problem scan_problem)
  from a b standalone_problem show ?thesis by blast
qed

section \<open>Formatting a date for display\<close>









lemma digit_val_012: "c \<in> set ''012'' \<Longrightarrow> digit_val c \<le> 2"
  by (auto simp: digit_val_def)









end
